theory Spec2Isabelle
  imports Complex_Main "HOL-Library.Product_Lexorder"
begin

section \<open>Strings and text normalisation\<close>

text \<open>
  A Python \<open>str\<close> is a sequence of code points. The model uses \<^typ>\<open>string\<close>, one
  \<^typ>\<open>char\<close> per code point, which covers the code points U+0000 to U+00FF; on that
  range \<open>str.lower\<close>, \<open>str.isspace\<close> and the regular expression class below are
  written out in full.
\<close>

definition py_lower_char :: "char \<Rightarrow> char" where
  "py_lower_char c =
     (let n = (of_char c :: nat)
      in if (65 \<le> n \<and> n \<le> 90) \<or> (192 \<le> n \<and> n \<le> 222 \<and> n \<noteq> 215)
         then char_of (n + 32) else c)"

definition lower :: "string \<Rightarrow> string" where
  "lower text = map py_lower_char text"

definition isspace :: "char \<Rightarrow> bool" where
  "isspace c = ((of_char c :: nat) \<in> {9, 10, 11, 12, 13, 28, 29, 30, 31, 32, 133, 160})"

definition lstrip :: "string \<Rightarrow> string" where
  "lstrip text = dropWhile isspace text"

definition rstrip :: "string \<Rightarrow> string" where
  "rstrip text = rev (dropWhile isspace (rev text))"

definition strip :: "string \<Rightarrow> string" where
  "strip text = lstrip (rstrip text)"

text \<open>The character class \<open>[a-zA-Z0-9 ]\<close> of the pattern in \<open>clean_text\<close>.\<close>

definition alnum_or_space :: "char \<Rightarrow> bool" where
  "alnum_or_space c =
     (let n = (of_char c :: nat)
      in (97 \<le> n \<and> n \<le> 122) \<or> (65 \<le> n \<and> n \<le> 90) \<or> (48 \<le> n \<and> n \<le> 57) \<or> n = 32)"

text \<open>\<open>re.sub(r'[^a-zA-Z0-9 ]', '', s)\<close>: every character outside the class is deleted.\<close>

definition re_sub_non_alnum :: "string \<Rightarrow> string" where
  "re_sub_non_alnum s = filter alnum_or_space s"

definition clean_text :: "string \<Rightarrow> string" where
  "clean_text text = strip (re_sub_non_alnum (lower text))"

section \<open>The similarity ratio of \<open>difflib.SequenceMatcher\<close>\<close>

text \<open>
  \<open>is_answer_correct\<close> calls \<open>difflib.SequenceMatcher(None, a, b).ratio()\<close> of the Python
  standard library. The definitions below follow \<open>difflib.py\<close>: \<open>__chain_b\<close>,
  \<open>find_longest_match\<close>, \<open>get_matching_blocks\<close>, \<open>ratio\<close> and \<open>_calculate_ratio\<close>, with
  \<open>isjunk = None\<close> and \<open>autojunk = True\<close> as the call leaves them.
\<close>

type_synonym match = "nat \<times> nat \<times> nat"

definition indices_of :: "char \<Rightarrow> string \<Rightarrow> nat list" where
  "indices_of elt b = filter (\<lambda>i. b ! i = elt) [0..<length b]"

text \<open>
  \<open>__chain_b\<close> builds the dictionary \<open>b2j\<close> from each element of \<open>b\<close> to the ascending
  list of its positions, and then deletes the popular elements: when \<open>b\<close> has at least 200
  elements, those that occur more than \<open>n // 100 + 1\<close> times. \<open>chain_b b elt\<close> is
  \<open>b2j.get(elt, [])\<close> on the finished dictionary.
\<close>

definition chain_b :: "string \<Rightarrow> char \<Rightarrow> nat list" where
  "chain_b b elt =
     (let idxs = indices_of elt b; n = length b
      in if n \<ge> 200 \<and> length idxs > n div 100 + 1 then [] else idxs)"

text \<open>With \<open>isjunk = None\<close> the set \<open>bjunk\<close> stays empty.\<close>

definition isbjunk :: "char \<Rightarrow> bool" where
  "isbjunk c = False"

text \<open>
  The inner loop of \<open>find_longest_match\<close> over the positions \<open>j\<close> of \<open>a[i]\<close> in \<open>b\<close>:
  \<open>continue\<close> below \<open>blo\<close>, \<open>break\<close> from \<open>bhi\<close> on. \<open>j2len.get(j-1, 0)\<close> at \<open>j = 0\<close> asks for
  the key \<open>-1\<close>, which is never present.
\<close>

definition j2len_get_prev :: "(nat \<rightharpoonup> nat) \<Rightarrow> nat \<Rightarrow> nat" where
  "j2len_get_prev j2len j =
     (if j = 0 then 0 else case j2len (j - 1) of None \<Rightarrow> 0 | Some v \<Rightarrow> v)"

fun scan_row :: "(nat \<rightharpoonup> nat) \<Rightarrow> nat \<Rightarrow> nat \<Rightarrow> nat \<Rightarrow> nat list
    \<Rightarrow> (nat \<rightharpoonup> nat) \<times> match \<Rightarrow> (nat \<rightharpoonup> nat) \<times> match" where
  "scan_row j2len blo bhi i [] st = st"
| "scan_row j2len blo bhi i (j # js) (newj2len, (besti, bestj, bestsize)) =
     (if j < blo then scan_row j2len blo bhi i js (newj2len, (besti, bestj, bestsize))
      else if j \<ge> bhi then (newj2len, (besti, bestj, bestsize))
      else
        let k = j2len_get_prev j2len j + 1
        in scan_row j2len blo bhi i js
             (newj2len(j \<mapsto> k),
              if k > bestsize then (i + 1 - k, j + 1 - k, k) else (besti, bestj, bestsize)))"

text \<open>
  The outer loop \<open>for i in range(alo, ahi)\<close>; each row starts a fresh \<open>newj2len\<close>.
  \<open>get_matching_blocks\<close> searches only ranges inside the two strings, so \<open>a[i]\<close> here and
  the elements read by the loops below exist.
\<close>

fun scan_rows :: "string \<Rightarrow> (char \<Rightarrow> nat list) \<Rightarrow> nat \<Rightarrow> nat \<Rightarrow> nat list
    \<Rightarrow> (nat \<rightharpoonup> nat) \<times> match \<Rightarrow> match" where
  "scan_rows a b2j blo bhi [] (j2len, best) = best"
| "scan_rows a b2j blo bhi (i # rest) (j2len, best) =
     scan_rows a b2j blo bhi rest (scan_row j2len blo bhi i (b2j (a ! i)) (Map.empty, best))"

text \<open>The four \<open>while\<close> loops that extend the block found.\<close>

function extend_left :: "string \<Rightarrow> string \<Rightarrow> nat \<Rightarrow> nat \<Rightarrow> match \<Rightarrow> match" where
  "extend_left a b alo blo (besti, bestj, bestsize) =
     (if besti > alo \<and> bestj > blo \<and> \<not> isbjunk (b ! (bestj - 1))
         \<and> a ! (besti - 1) = b ! (bestj - 1)
      then extend_left a b alo blo (besti - 1, bestj - 1, bestsize + 1)
      else (besti, bestj, bestsize))"
  by pat_completeness auto
termination
  by (relation "measure (\<lambda>(a, b, alo, blo, besti, bestj, bestsize). besti)") auto

function extend_right :: "string \<Rightarrow> string \<Rightarrow> nat \<Rightarrow> nat \<Rightarrow> match \<Rightarrow> match" where
  "extend_right a b ahi bhi (besti, bestj, bestsize) =
     (if besti + bestsize < ahi \<and> bestj + bestsize < bhi \<and> \<not> isbjunk (b ! (bestj + bestsize))
         \<and> a ! (besti + bestsize) = b ! (bestj + bestsize)
      then extend_right a b ahi bhi (besti, bestj, bestsize + 1)
      else (besti, bestj, bestsize))"
  by pat_completeness auto
termination
  by (relation "measure (\<lambda>(a, b, ahi, bhi, besti, bestj, bestsize). ahi - (besti + bestsize))") auto

function extend_left_junk :: "string \<Rightarrow> string \<Rightarrow> nat \<Rightarrow> nat \<Rightarrow> match \<Rightarrow> match" where
  "extend_left_junk a b alo blo (besti, bestj, bestsize) =
     (if besti > alo \<and> bestj > blo \<and> isbjunk (b ! (bestj - 1))
         \<and> a ! (besti - 1) = b ! (bestj - 1)
      then extend_left_junk a b alo blo (besti - 1, bestj - 1, bestsize + 1)
      else (besti, bestj, bestsize))"
  by pat_completeness auto
termination
  by (relation "measure (\<lambda>(a, b, alo, blo, besti, bestj, bestsize). besti)") auto

function extend_right_junk :: "string \<Rightarrow> string \<Rightarrow> nat \<Rightarrow> nat \<Rightarrow> match \<Rightarrow> match" where
  "extend_right_junk a b ahi bhi (besti, bestj, bestsize) =
     (if besti + bestsize < ahi \<and> bestj + bestsize < bhi \<and> isbjunk (b ! (bestj + bestsize))
         \<and> a ! (besti + bestsize) = b ! (bestj + bestsize)
      then extend_right_junk a b ahi bhi (besti, bestj, bestsize + 1)
      else (besti, bestj, bestsize))"
  by pat_completeness auto
termination
  by (relation "measure (\<lambda>(a, b, ahi, bhi, besti, bestj, bestsize). ahi - (besti + bestsize))") auto

declare extend_left.simps [simp del] extend_right.simps [simp del]
  extend_left_junk.simps [simp del] extend_right_junk.simps [simp del]

definition find_longest_match :: "string \<Rightarrow> string \<Rightarrow> nat \<Rightarrow> nat \<Rightarrow> nat \<Rightarrow> nat \<Rightarrow> match" where
  "find_longest_match a b alo ahi blo bhi =
     extend_right_junk a b ahi bhi
       (extend_left_junk a b alo blo
         (extend_right a b ahi bhi
           (extend_left a b alo blo
             (scan_rows a (chain_b b) blo bhi [alo..<ahi] (Map.empty, (alo, blo, 0))))))"

subsection \<open>The block found lies inside the range searched\<close>

definition row_bounded :: "(nat \<rightharpoonup> nat) \<Rightarrow> nat \<Rightarrow> bool" where
  "row_bounded m r = (\<forall>j v. m j = Some v \<longrightarrow> v \<le> r)"

definition best_within :: "nat \<Rightarrow> nat \<Rightarrow> match \<Rightarrow> bool" where
  "best_within alo hi best = (case best of (besti, bestj, bestsize) \<Rightarrow> alo \<le> besti \<and> besti + bestsize \<le> hi)"

definition better :: "nat \<Rightarrow> nat \<Rightarrow> nat \<Rightarrow> match \<Rightarrow> match" where
  "better i j k best =
     (case best of (besti, bestj, bestsize) \<Rightarrow>
        if k > bestsize then (i + 1 - k, j + 1 - k, k) else best)"

lemma scan_row_Cons:
  "scan_row j2len blo bhi i (j # js) (new, best) =
     (if j < blo then scan_row j2len blo bhi i js (new, best)
      else if j \<ge> bhi then (new, best)
      else scan_row j2len blo bhi i js
             (new(j \<mapsto> j2len_get_prev j2len j + 1), better i j (j2len_get_prev j2len j + 1) best))"
  by (cases best) (simp add: better_def Let_def)

declare scan_row.simps(2) [simp del]

lemma j2len_get_prev_le: "row_bounded j2len r \<Longrightarrow> j2len_get_prev j2len j \<le> r"
  by (auto simp: j2len_get_prev_def row_bounded_def split: option.splits)

lemma better_within:
  assumes "best_within alo (Suc i) best" and "k \<le> Suc i - alo" and "alo \<le> i"
  shows "best_within alo (Suc i) (better i j k best)"
  using assms by (cases best) (auto simp: best_within_def better_def)

lemma scan_row_bounds:
  assumes "row_bounded j2len (i - alo)" and "alo \<le> i"
    and "row_bounded new (Suc i - alo)" and "best_within alo (Suc i) best"
    and "scan_row j2len blo bhi i js (new, best) = (new', best')"
  shows "row_bounded new' (Suc i - alo) \<and> best_within alo (Suc i) best'"
  using assms(3-5)
proof (induction js arbitrary: new best)
  case Nil
  then show ?case by simp
next
  case (Cons j js)
  let ?k = "j2len_get_prev j2len j + 1"
  have k: "?k \<le> Suc i - alo"
    using j2len_get_prev_le[OF assms(1), of j] assms(2) by simp
  show ?case
  proof (cases "j < blo \<or> j \<ge> bhi")
    case True
    with Cons show ?thesis by (auto simp: scan_row_Cons split: if_splits)
  next
    case False
    have n': "row_bounded (new(j \<mapsto> ?k)) (Suc i - alo)"
      using Cons.prems(1) k by (auto simp: row_bounded_def)
    have b': "best_within alo (Suc i) (better i j ?k best)"
      by (rule better_within[OF Cons.prems(2) k assms(2)])
    have "scan_row j2len blo bhi i js (new(j \<mapsto> ?k), better i j ?k best) = (new', best')"
      using Cons.prems(3) False by (simp add: scan_row_Cons)
    from Cons.IH[OF n' b' this] show ?thesis .
  qed
qed

lemma scan_rows_bounds:
  assumes "alo \<le> i" and "i \<le> ahi" and "row_bounded j2len (i - alo)" and "best_within alo i best"
  shows "best_within alo ahi (scan_rows a b2j blo bhi [i..<ahi] (j2len, best))"
  using assms
proof (induction "ahi - i" arbitrary: i j2len best)
  case 0
  then show ?case by simp
next
  case (Suc d)
  then have lt: "i < ahi" by simp
  obtain new' best' where s: "scan_row j2len blo bhi i (b2j (a ! i)) (Map.empty, best) = (new', best')"
    by (cases "scan_row j2len blo bhi i (b2j (a ! i)) (Map.empty, best)") auto
  have bw: "best_within alo (Suc i) best"
    using Suc.prems(4) by (auto simp: best_within_def)
  have "row_bounded new' (Suc i - alo) \<and> best_within alo (Suc i) best'"
    by (rule scan_row_bounds[OF Suc.prems(3) Suc.prems(1) _ bw s]) (simp add: row_bounded_def)
  moreover have "d = ahi - Suc i" using Suc.hyps(2) by simp
  ultimately have "best_within alo ahi (scan_rows a b2j blo bhi [Suc i..<ahi] (new', best'))"
    using Suc.hyps(1)[of "Suc i" new' best'] lt Suc.prems(1) by simp
  then show ?case using lt s by (simp add: upt_conv_Cons)
qed

lemma extend_left_bounds:
  "best_within alo hi best \<Longrightarrow> best_within alo hi (extend_left a b alo blo best)"
proof (induction a b alo blo best rule: extend_left.induct)
  case (1 a b alo blo besti bestj bestsize)
  show ?case
  proof (cases "besti > alo \<and> bestj > blo \<and> \<not> isbjunk (b ! (bestj - 1)) \<and> a ! (besti - 1) = b ! (bestj - 1)")
    case True
    have "best_within alo hi (besti - 1, bestj - 1, bestsize + 1)"
      using "1.prems" True by (auto simp: best_within_def)
    from "1.IH"[OF True this] True show ?thesis by (subst extend_left.simps) simp
  next
    case False
    then show ?thesis using "1.prems" by (subst extend_left.simps) auto
  qed
qed

lemma extend_right_bounds:
  "best_within alo ahi best \<Longrightarrow> best_within alo ahi (extend_right a b ahi bhi best)"
proof (induction a b ahi bhi best rule: extend_right.induct)
  case (1 a b ahi bhi besti bestj bestsize)
  show ?case
  proof (cases "besti + bestsize < ahi \<and> bestj + bestsize < bhi \<and> \<not> isbjunk (b ! (bestj + bestsize))
         \<and> a ! (besti + bestsize) = b ! (bestj + bestsize)")
    case True
    have "best_within alo ahi (besti, bestj, bestsize + 1)"
      using "1.prems" True by (auto simp: best_within_def)
    from "1.IH"[OF True this] True show ?thesis by (subst extend_right.simps) simp
  next
    case False
    then show ?thesis using "1.prems" by (subst extend_right.simps) auto
  qed
qed

lemma extend_left_junk_id: "extend_left_junk a b alo blo best = best"
  by (cases best) (simp add: isbjunk_def extend_left_junk.simps)

lemma extend_right_junk_id: "extend_right_junk a b ahi bhi best = best"
  by (cases best) (simp add: isbjunk_def extend_right_junk.simps)

lemma find_longest_match_within:
  assumes "alo \<le> ahi"
  shows "best_within alo ahi (find_longest_match a b alo ahi blo bhi)"
proof -
  have "best_within alo alo (alo, blo, 0)" by (simp add: best_within_def)
  then have "best_within alo ahi (scan_rows a (chain_b b) blo bhi [alo..<ahi] (Map.empty, (alo, blo, 0)))"
    using assms by (intro scan_rows_bounds) (simp_all add: row_bounded_def)
  then show ?thesis
    unfolding find_longest_match_def extend_left_junk_id extend_right_junk_id
    by (intro extend_right_bounds extend_left_bounds)
qed

lemma find_longest_match_empty_range:
  assumes "ahi \<le> alo"
  shows "find_longest_match a b alo ahi blo bhi = (alo, blo, 0)"
  using assms by (simp add: find_longest_match_def extend_left_junk_id extend_right_junk_id extend_left.simps extend_right.simps)

lemma find_longest_match_bounds:
  assumes "find_longest_match a b alo ahi blo bhi = (i, j, k)" and "k \<noteq> 0"
  shows "alo \<le> i \<and> i + k \<le> ahi"
proof (cases "alo \<le> ahi")
  case True
  from find_longest_match_within[OF this, of a b blo bhi] assms(1)
  show ?thesis by (simp add: best_within_def)
next
  case False
  then show ?thesis using find_longest_match_empty_range[of ahi alo a b blo bhi] assms by simp
qed


subsection \<open>Matching blocks and the ratio\<close>

text \<open>
  The loop of \<open>get_matching_blocks\<close>. \<open>queue\<close> is used as a stack: \<open>pop()\<close> takes the
  last element and \<open>append\<close> adds at the end, so the model keeps the top of the stack at
  the head of the list.
\<close>

function match_loop :: "string \<Rightarrow> string \<Rightarrow> (nat \<times> nat \<times> nat \<times> nat) list \<Rightarrow> match list
    \<Rightarrow> match list" where
  "match_loop a b [] matching_blocks = matching_blocks"
| "match_loop a b ((alo, ahi, blo, bhi) # queue) matching_blocks =
     (case find_longest_match a b alo ahi blo bhi of (i, j, k) \<Rightarrow>
        if k \<noteq> 0
        then match_loop a b
               ((if i + k < ahi \<and> j + k < bhi then [(i + k, ahi, j + k, bhi)] else [])
                @ (if alo < i \<and> blo < j then [(alo, i, blo, j)] else [])
                @ queue)
               (matching_blocks @ [(i, j, k)])
        else match_loop a b queue matching_blocks)"
  by pat_completeness auto
termination
proof (relation "measure (\<lambda>(a, b, queue, blocks).
         sum_list (map (\<lambda>(alo, ahi, blo, bhi). 2 * (ahi - alo) + 1) queue))", goal_cases)
  case 1
  show ?case by simp
next
  case 2
  then show ?case
    by (auto dest!: find_longest_match_bounds find_longest_match_bounds[OF sym])
next
  case 3
  then show ?case by simp
qed

declare match_loop.simps [simp del]

text \<open>The loop that collapses adjacent blocks of the sorted list.\<close>

fun collapse :: "match \<Rightarrow> match list \<Rightarrow> match list" where
  "collapse (i1, j1, k1) [] = (if k1 \<noteq> 0 then [(i1, j1, k1)] else [])"
| "collapse (i1, j1, k1) ((i2, j2, k2) # rest) =
     (if i1 + k1 = i2 \<and> j1 + k1 = j2 then collapse (i1, j1, k1 + k2) rest
      else (if k1 \<noteq> 0 then [(i1, j1, k1)] else []) @ collapse (i2, j2, k2) rest)"

definition get_matching_blocks :: "string \<Rightarrow> string \<Rightarrow> match list" where
  "get_matching_blocks a b =
     (let la = length a; lb = length b;
          matching_blocks = sort (match_loop a b [(0, la, 0, lb)] [])
      in collapse (0, 0, 0) matching_blocks @ [(la, lb, 0)])"

text \<open>
  \<open>_calculate_ratio\<close> returns the float \<open>2.0 * matches / length\<close>; the model keeps the exact
  quotient as a rational number. The float is the double nearest to that quotient, and the
  threshold \<open>0.8\<close> is the double nearest to 4/5, so comparing the two floats gives the
  result of comparing the exact quotient with 4/5 as long as the two strings together have
  fewer than \<open>10^16\<close> characters.
\<close>

definition calculate_ratio :: "nat \<Rightarrow> nat \<Rightarrow> rat" where
  "calculate_ratio matches len = (if len \<noteq> 0 then 2 * of_nat matches / of_nat len else 1)"

definition ratio :: "string \<Rightarrow> string \<Rightarrow> rat" where
  "ratio a b =
     calculate_ratio (sum_list (map (\<lambda>(i, j, k). k) (get_matching_blocks a b)))
       (length a + length b)"

section \<open>The answer validator\<close>

definition is_answer_correct :: "string \<Rightarrow> string \<Rightarrow> rat \<Rightarrow> bool" where
  "is_answer_correct user_answer correct_answer threshold =
     (let user_answer_clean = clean_text user_answer;
          correct_answer_clean = clean_text correct_answer;
          similarity = ratio user_answer_clean correct_answer_clean
      in similarity \<ge> threshold)"

section \<open>Errors\<close>

text \<open>
  The handlers raise \<open>HTTPException(status_code, detail)\<close>; the parser and the two models
  may raise any other exception, kept with its text. A detail built as
  \<open>f"prefix{str(e)}"\<close> is kept as the prefix and the exception \<open>e\<close>.
\<close>

datatype py_exception =
    HTTPException (status_code: nat) (detail: message)
  | LibraryError string
and message =
    Text string
  | Prefixed string py_exception

section \<open>Text extraction\<close>

record upload_file =
  filename :: string
  contents :: "nat list"

text \<open>
  \<open>fitz.open(stream=pdf_bytes, filetype="pdf")\<close> followed by \<open>page.get_text("text")\<close> on
  every page: the parser is a parameter that raises or gives the text of each page.
\<close>

type_synonym parser = "nat list \<Rightarrow> py_exception + string list"

definition endswith :: "string \<Rightarrow> string \<Rightarrow> bool" where
  "endswith s suffix =
     (length suffix \<le> length s \<and> drop (length s - length suffix) s = suffix)"

definition join :: "string \<Rightarrow> string list \<Rightarrow> string" where
  "join sep xs = (case xs of [] \<Rightarrow> [] | x # rest \<Rightarrow> x @ concat (map (\<lambda>y. sep @ y) rest))"

text \<open>The body of the \<open>try\<close> block of \<open>extract_text_from_pdf\<close>.\<close>

definition extract_text_try :: "parser \<Rightarrow> upload_file \<Rightarrow> py_exception + string" where
  "extract_text_try fitz_open pdf_file =
     (if \<not> endswith (filename pdf_file) ''.pdf''
      then Inl (HTTPException 400 (Text ''Uploaded file is not a valid PDF.''))
      else case fitz_open (contents pdf_file) of
             Inl e \<Rightarrow> Inl e
           | Inr doc \<Rightarrow>
               if length doc = 0 then Inl (HTTPException 400 (Text ''PDF has no pages.''))
               else
                 let text = join [CHR 0x0A] doc
                 in if strip text = []
                    then Inl (HTTPException 400 (Text ''No extractable text found in PDF.''))
                    else Inr (strip (take 5000 text)))"

text \<open>
  \<open>except Exception as e\<close> catches every exception of the block, the \<open>HTTPException\<close>s
  raised inside it included, and raises status 500.
\<close>

definition extract_text_from_pdf :: "parser \<Rightarrow> upload_file \<Rightarrow> py_exception + string" where
  "extract_text_from_pdf fitz_open pdf_file =
     (case extract_text_try fitz_open pdf_file of
        Inl e \<Rightarrow> Inl (HTTPException 500 (Prefixed ''Error processing PDF: '' e))
      | Inr text \<Rightarrow> Inr text)"

section \<open>Chunking\<close>

text \<open>\<open>range(0, n, step)\<close> and the slice \<open>text[i:j]\<close>.\<close>

definition range_step :: "nat \<Rightarrow> nat \<Rightarrow> nat list" where
  "range_step n step = map (\<lambda>k. k * step) [0..<(n + step - 1) div step]"

definition slice :: "string \<Rightarrow> nat \<Rightarrow> nat \<Rightarrow> string" where
  "slice text i j = take (j - i) (drop i text)"

definition chunk_text :: "string \<Rightarrow> string list" where
  "chunk_text text = take 5 (map (\<lambda>i. slice text i (i + 500)) (range_step (length text) 500))"

section \<open>Question generation\<close>

text \<open>
  The text-generation pipeline and the random source answer differently from call to call,
  so both take and return a state \<open>'s\<close>. A call
  \<open>generator(prompt, max_length=m, num_return_sequences=n, do_sample=True)\<close> raises or
  returns a list of records; the model keeps the \<open>generated_text\<close> of each.
\<close>

type_synonym 's generator = "'s \<Rightarrow> string \<Rightarrow> nat \<Rightarrow> nat \<Rightarrow> (py_exception + string list) \<times> 's"

type_synonym 's randbelow = "'s \<Rightarrow> nat \<Rightarrow> nat \<times> 's"

definition ANSWER_TYPES :: "string list" where
  "ANSWER_TYPES = [''MCQ'', [CHR ''S'', CHR 0xED, CHR ''/'', CHR ''N'', CHR ''o''], ''Respuesta corta'']"

definition clean_generated_text :: "string \<Rightarrow> string" where
  "clean_generated_text text = (let text = strip text in if endswith text ''?'' then text else [])"

text \<open>\<open>random.choice(seq)\<close> is \<open>seq[randbelow(len(seq))]\<close>, an element of \<open>seq\<close>.\<close>

definition generate_answer_type :: "'s randbelow \<Rightarrow> 's \<Rightarrow> string \<times> 's" where
  "generate_answer_type rnd s =
     (case rnd s (length ANSWER_TYPES) of
        (r, s') \<Rightarrow> (ANSWER_TYPES ! (r mod length ANSWER_TYPES), s'))"

text \<open>
  \<open>generator(prompt, max_length=50, num_return_sequences=1, do_sample=True)[0]["generated_text"]\<close>:
  the call may raise, and indexing an empty result raises \<open>IndexError\<close>.
\<close>

definition generate_one :: "'s generator \<Rightarrow> 's \<Rightarrow> string \<Rightarrow> (py_exception + string) \<times> 's" where
  "generate_one gen s prompt =
     (case gen s prompt 50 1 of
        (Inl e, s') \<Rightarrow> (Inl e, s')
      | (Inr [], s') \<Rightarrow> (Inl (LibraryError ''IndexError''), s')
      | (Inr (t # ts), s') \<Rightarrow> (Inr t, s'))"

definition generate_possible_answers ::
    "'s generator \<Rightarrow> 's \<Rightarrow> string \<Rightarrow> string \<Rightarrow> string list \<times> 's" where
  "generate_possible_answers gen s question answer_type =
     (if answer_type = ''MCQ'' then
        (case generate_one gen s (''Provide a correct answer to: '' @ question) of
           (Inl e, s1) \<Rightarrow> ([''No se pudo generar respuesta''], s1)
         | (Inr a1, s1) \<Rightarrow>
        (case generate_one gen s1 (''Provide a wrong answer to: '' @ question) of
           (Inl e, s2) \<Rightarrow> ([''No se pudo generar respuesta''], s2)
         | (Inr a2, s2) \<Rightarrow>
        (case generate_one gen s2 (''Provide another wrong answer to: '' @ question) of
           (Inl e, s3) \<Rightarrow> ([''No se pudo generar respuesta''], s3)
         | (Inr a3, s3) \<Rightarrow>
        (case generate_one gen s3 (''Provide one more wrong answer to: '' @ question) of
           (Inl e, s4) \<Rightarrow> ([''No se pudo generar respuesta''], s4)
         | (Inr a4, s4) \<Rightarrow> ([a1, a2, a3, a4], s4)))))
      else if answer_type = [CHR ''S'', CHR 0xED, CHR ''/'', CHR ''N'', CHR ''o''] then
        ([[CHR ''S'', CHR 0xED], ''No''], s)
      else if answer_type = ''Respuesta corta'' then
        (case generate_one gen s (''Provide a short answer to: '' @ question) of
           (Inl e, s1) \<Rightarrow> ([''No se pudo generar respuesta''], s1)
         | (Inr a1, s1) \<Rightarrow> ([a1], s1))
      else ([], s))"

text \<open>
  The dictionary appended to \<open>questions\<close>, with the keys \<open>question\<close>, \<open>type\<close> and
  \<open>answers\<close>; the first two hold one-element lists.
\<close>

record question_record =
  q_question :: "string list"
  q_type :: "string list"
  q_answers :: "string list"

text \<open>The loop \<open>for q in generated\<close>.\<close>

fun accept_generated :: "'s generator \<Rightarrow> 's randbelow \<Rightarrow> 's \<Rightarrow> string list
    \<Rightarrow> question_record list \<Rightarrow> question_record list \<times> 's" where
  "accept_generated gen rnd s [] questions = (questions, s)"
| "accept_generated gen rnd s (q # generated) questions =
     (let clean_q = clean_generated_text q
      in if clean_q \<noteq> [] then
           (case generate_answer_type rnd s of (answer_type, s1) \<Rightarrow>
            case generate_possible_answers gen s1 clean_q answer_type of (possible_answers, s2) \<Rightarrow>
              accept_generated gen rnd s2 generated
                (questions @ [\<lparr>q_question = [clean_q], q_type = [answer_type],
                               q_answers = possible_answers\<rparr>]))
         else accept_generated gen rnd s generated questions)"

text \<open>The prompt built for one chunk.\<close>

definition question_prompt :: "string \<Rightarrow> string \<Rightarrow> string" where
  "question_prompt difficulty chunk =
     ''Generate a clear and structured question based on the following text with ''
     @ difficulty @ '' difficulty: '' @ chunk"

text \<open>The loop \<open>for chunk in chunks\<close>; an exception of the generator call ends the request.\<close>

fun generate_for_chunks :: "'s generator \<Rightarrow> 's randbelow \<Rightarrow> string \<Rightarrow> 's \<Rightarrow> string list
    \<Rightarrow> question_record list \<Rightarrow> (py_exception + question_record list) \<times> 's" where
  "generate_for_chunks gen rnd difficulty s [] questions = (Inr questions, s)"
| "generate_for_chunks gen rnd difficulty s (chunk # chunks) questions =
     (let prompt = question_prompt difficulty chunk
      in case gen s prompt 128 2 of
           (Inl e, s1) \<Rightarrow> (Inl (HTTPException 500 (Prefixed ''AI generation error: '' e)), s1)
         | (Inr generated, s1) \<Rightarrow>
             (case accept_generated gen rnd s1 generated questions of
                (questions', s2) \<Rightarrow> generate_for_chunks gen rnd difficulty s2 chunks questions'))"

definition generate_questions :: "parser \<Rightarrow> 's generator \<Rightarrow> 's randbelow \<Rightarrow> 's \<Rightarrow> upload_file
    \<Rightarrow> string \<Rightarrow> (py_exception + question_record list) \<times> 's" where
  "generate_questions fitz_open gen rnd s file difficulty =
     (case extract_text_from_pdf fitz_open file of
        Inl e \<Rightarrow> (Inl e, s)
      | Inr text \<Rightarrow>
          if text = [] then (Inl (HTTPException 400 (Text ''No text extracted from PDF.'')), s)
          else
            (case generate_for_chunks gen rnd difficulty s (chunk_text text) [] of
               (Inl e, s') \<Rightarrow> (Inl e, s')
             | (Inr questions, s') \<Rightarrow>
                 if questions = []
                 then (Inl (HTTPException 500 (Text ''Failed to generate valid questions.'')), s')
                 else (Inr (take 10 questions), s')))"

section \<open>Answer validation\<close>

text \<open>
  The default \<open>threshold: float = 0.8\<close>. The floats of the source are modelled by exact
  rational numbers.
\<close>

definition default_threshold :: rat where
  "default_threshold = 4 / 5"

text \<open>
  \<open>qa_pipeline(question=question, context=context)\<close> raises or returns a dictionary; the
  model keeps its \<open>answer\<close> entry, absent or present.
\<close>

type_synonym 's qa_pipeline = "'s \<Rightarrow> string \<Rightarrow> string \<Rightarrow> (py_exception + string option) \<times> 's"

record validation_result =
  v_question :: string
  v_user_answer :: string
  v_correct_answer :: string
  v_is_correct :: string

definition validate_answers :: "parser \<Rightarrow> 's qa_pipeline \<Rightarrow> 's \<Rightarrow> upload_file \<Rightarrow> string \<Rightarrow> string
    \<Rightarrow> (py_exception + validation_result) \<times> 's" where
  "validate_answers fitz_open qa s file question user_answer =
     (case extract_text_from_pdf fitz_open file of
        Inl e \<Rightarrow> (Inl e, s)
      | Inr context \<Rightarrow>
          if question = [] \<or> user_answer = [] \<or> context = []
          then (Inl (HTTPException 400
                  (Text ''Invalid input: question, answer, and PDF file are required.'')), s)
          else
            (case qa s question context of
               (Inl e, s') \<Rightarrow> (Inl (HTTPException 500 (Prefixed ''AI validation error: '' e)), s')
             | (Inr response, s') \<Rightarrow>
                 let correct_answer = (case response of None \<Rightarrow> [] | Some a \<Rightarrow> a)
                 in if correct_answer = []
                    then (Inl (HTTPException 500 (Prefixed ''AI validation error: ''
                            (HTTPException 400 (Text ''No valid answer found in the context.'')))), s')
                    else (Inr \<lparr>v_question = question, v_user_answer = user_answer,
                               v_correct_answer = correct_answer,
                               v_is_correct = (if is_answer_correct user_answer correct_answer
                                                  default_threshold
                                             then ''yes'' else ''no'')\<rparr>, s')))"

section \<open>Properties of the chunking step\<close>

lemma chunk_nth:
  assumes "k < length (chunk_text text)"
  shows "chunk_text text ! k = take 500 (drop (500 * k) text)"
  using assms by (simp add: chunk_text_def range_step_def slice_def mult.commute)

lemma concat_slices:
  "concat (map (\<lambda>k. take c (drop (k * c) xs)) [0..<n]) = take (n * c) xs"
proof (induction n)
  case 0
  then show ?case by simp
next
  case (Suc n)
  have "take (n * c) xs @ take c (drop (n * c) xs) = take (n * c + c) xs"
    by (simp add: take_add)
  with Suc show ?case by (simp add: add.commute)
qed

lemma take_upt_min: "take m [0..<n] = [0..<min m n]"
  by (cases "m \<le> n") (simp_all add: min_def)

lemma chunk_count: "length (chunk_text text) = min ((length text + 499) div 500) 5"
  by (simp add: chunk_text_def range_step_def)

lemma chunk_concat: "concat (chunk_text text) = take (min (5 * 500) (length text)) text"
proof -
  let ?n = "(length text + 499) div 500"
  have "chunk_text text = map (\<lambda>k. take 500 (drop (k * 500) text)) [0..<min ?n 5]"
    by (simp add: chunk_text_def range_step_def slice_def take_map comp_def take_upt_min min.commute add.commute)
  then have c: "concat (chunk_text text) = take (min ?n 5 * 500) text"
    by (simp only: concat_slices)
  show ?thesis
  proof (cases "?n \<le> 5")
    case True
    then have "length text \<le> ?n * 500" by linarith
    then show ?thesis using True c by (simp add: min_def)
  next
    case False
    then have "length text \<ge> 2500" by linarith
    then show ?thesis using False c by (simp add: min_def)
  qed
qed
lemma ceil_div_500: "nat \<lceil>real n / 500\<rceil> = (n + 499) div 500"
proof -
  have "\<lceil>real n / 500\<rceil> = int ((n + 499) div 500)"
  proof (rule ceiling_unique)
    show "real_of_int (int ((n + 499) div 500)) - 1 < real n / 500"
    proof -
      have "500 * ((n + 499) div 500) < n + 500" by linarith
      then have "real (500 * ((n + 499) div 500)) < real (n + 500)" by (simp only: of_nat_less_iff)
      then show ?thesis by simp
    qed
    show "real n / 500 \<le> real_of_int (int ((n + 499) div 500))"
    proof -
      have "n \<le> 500 * ((n + 499) div 500)" by linarith
      then have "real n \<le> real (500 * ((n + 499) div 500))" by (simp only: of_nat_le_iff)
      then show ?thesis by simp
    qed
  qed
  then show ?thesis by simp
qed

text \<open>
  C2: a string of length \<open>L\<close> is split into \<open>ceil(L/500)\<close> chunks, at most 5; chunk
  \<open>k\<close> is the substring of at most 500 characters that starts at position \<open>500 * k\<close>, so
  the chunks do not overlap and keep the order of the input; the concatenation of the chunks
  is the first \<open>min(5 * 500, L)\<close> characters of the input.
\<close>

theorem chunk_text_partition:
  "length (chunk_text text) = min (nat \<lceil>real (length text) / 500\<rceil>) 5
   \<and> (\<forall>k < length (chunk_text text).
         chunk_text text ! k = take 500 (drop (500 * k) text)
         \<and> length (chunk_text text ! k) \<le> 500)
   \<and> concat (chunk_text text) = take (min (5 * 500) (length text)) text"
proof -
  have "length (chunk_text text ! k) \<le> 500" if "k < length (chunk_text text)" for k
    using chunk_nth[OF that] by simp
  moreover have "chunk_text text ! k = take 500 (drop (500 * k) text)"
    if "k < length (chunk_text text)" for k
    by (rule chunk_nth[OF that])
  ultimately show ?thesis
    unfolding chunk_concat ceil_div_500 using chunk_count[of "text"] by blast
qed

theorem chunk_text_partition_witness:
  "length (chunk_text (replicate 1203 (CHR ''x''))) = 3
   \<and> chunk_text (replicate 1203 (CHR ''x'')) ! 2 = replicate 203 (CHR ''x'')
   \<and> concat (chunk_text (replicate 1203 (CHR ''x''))) = replicate 1203 (CHR ''x'')"
proof -
  let ?t = "replicate 1203 (CHR ''x'')"
  have n: "nat \<lceil>real (length ?t) / 500\<rceil> = 3" by (simp add: ceil_div_500)
  from chunk_text_partition[of ?t] n
  have len: "length (chunk_text ?t) = 3"
    and nth: "\<forall>k < length (chunk_text ?t). chunk_text ?t ! k = take 500 (drop (500 * k) ?t)"
    and cat: "concat (chunk_text ?t) = take (min (5 * 500) (length ?t)) ?t"
    by simp_all
  have "(2::nat) < 3" by simp
  with nth len have "chunk_text ?t ! 2 = take 500 (drop (500 * 2) ?t)" by metis
  moreover have "take 500 (drop (500 * 2) ?t) = replicate 203 (CHR ''x'')"
    by (simp only: drop_replicate take_replicate) simp
  moreover have "take (min (5 * 500) (length ?t)) ?t = ?t"
    by (simp only: length_replicate take_replicate) simp
  ultimately show ?thesis using len cat by (simp only:)
qed

section \<open>Properties of the similarity ratio\<close>

lemma scan_row_append:
  assumes "\<forall>j \<in> set js1. j < bhi"
  shows "scan_row j2len blo bhi i (js1 @ js2) st = scan_row j2len blo bhi i js2 (scan_row j2len blo bhi i js1 st)"
  using assms
proof (induction js1 arbitrary: st)
  case Nil
  then show ?case by simp
next
  case (Cons j js1)
  obtain new best where st: "st = (new, best)" by (cases st) auto
  from Cons show ?case unfolding st by (simp add: scan_row_Cons)
qed

lemma scan_row_fst:
  assumes "\<forall>j \<in> set js. blo \<le> j \<and> j < bhi"
  shows "fst (scan_row j2len blo bhi i js (new, best)) =
         (\<lambda>j. if j \<in> set js then Some (j2len_get_prev j2len j + 1) else new j)"
  using assms
proof (induction js arbitrary: new best)
  case Nil
  then show ?case by simp
next
  case (Cons j js)
  then show ?case by (auto simp add: scan_row_Cons fun_eq_iff)
qed

lemma scan_row_snd_unchanged:
  assumes "\<forall>j \<in> set js. j2len_get_prev j2len j + 1 \<le> snd (snd best)"
  shows "snd (scan_row j2len blo bhi i js (new, best)) = best"
  using assms
proof (induction js arbitrary: new)
  case Nil
  then show ?case by simp
next
  case (Cons j js)
  have "better i j (j2len_get_prev j2len j + 1) best = best"
    using Cons.prems by (cases best) (simp add: better_def)
  with Cons show ?case by (simp add: scan_row_Cons)
qed

lemma scan_row_single:
  assumes "blo \<le> j" and "j < bhi"
  shows "scan_row j2len blo bhi i [j] (new, best) =
         (new(j \<mapsto> j2len_get_prev j2len j + 1), better i j (j2len_get_prev j2len j + 1) best)"
  using assms by (simp add: scan_row_Cons)


text \<open>
  For the ratio of a string with itself: \<open>np_run x j\<close> counts the positions up to \<open>j\<close>, going
  back from \<open>j\<close>, whose element \<open>__chain_b\<close> kept in \<open>b2j\<close>. The invariant of the outer
  loop says that no entry of \<open>j2len\<close> exceeds that count for its column or for the row just
  finished, that the entry on the diagonal reaches it, and that the best block found so far
  starts at the same position in both strings.
\<close>

fun np_run :: "string \<Rightarrow> nat \<Rightarrow> nat" where
  "np_run x 0 = (if chain_b x (x ! 0) = [] then 0 else 1)"
| "np_run x (Suc j) = (if chain_b x (x ! Suc j) = [] then 0 else np_run x j + 1)"

definition diag_inv :: "string \<Rightarrow> nat \<Rightarrow> (nat \<rightharpoonup> nat) \<Rightarrow> match \<Rightarrow> bool" where
  "diag_inv x i j2len best =
     ((\<forall>j v. j2len j = Some v \<longrightarrow> 0 < i \<and> v \<le> np_run x j \<and> v \<le> np_run x (i - 1))
      \<and> (0 < i \<longrightarrow> j2len_get_prev j2len i = np_run x (i - 1))
      \<and> (\<forall>j < i. np_run x j \<le> snd (snd best))
      \<and> fst best = fst (snd best))"

lemma chain_b_cases: "chain_b b c = [] \<or> chain_b b c = indices_of c b"
  by (simp add: chain_b_def Let_def)

lemma indices_of_split:
  assumes "i < length x"
  shows "indices_of (x ! i) x =
         filter (\<lambda>j. x ! j = x ! i) [0..<i] @ [i] @ filter (\<lambda>j. x ! j = x ! i) [Suc i..<length x]"
proof -
  have "[0..<length x] = [0..<i] @ [i] @ [Suc i..<length x]"
    using assms by (metis append_Cons append_Nil le_add1 le_add_same_cancel1 less_imp_add_positive upt_add_eq_append upt_conv_Cons)
  then show ?thesis by (simp add: indices_of_def)
qed

lemma k_bounds:
  assumes inv: "diag_inv x i j2len best" and np: "chain_b x (x ! i) \<noteq> []" and eq: "x ! j = x ! i"
  shows "j2len_get_prev j2len j + 1 \<le> np_run x j \<and> j2len_get_prev j2len j + 1 \<le> np_run x i"
proof (cases j)
  case 0
  have "1 \<le> np_run x i" using np by (cases i) simp_all
  then show ?thesis using 0 np eq by (simp add: j2len_get_prev_def)
next
  case (Suc j')
  have npj: "np_run x j = np_run x j' + 1" using Suc np eq by simp
  show ?thesis
  proof (cases "j2len j'")
    case None
    have "1 \<le> np_run x i" using np by (cases i) simp_all
    then show ?thesis using None Suc npj by (simp add: j2len_get_prev_def)
  next
    case (Some v)
    with inv have v: "0 < i" "v \<le> np_run x j'" "v \<le> np_run x (i - 1)"
      unfolding diag_inv_def by blast+
    then obtain i' where i: "i = Suc i'" by (cases i) auto
    have "np_run x i = np_run x i' + 1" using np i by simp
    then show ?thesis using Some Suc npj v i by (simp add: j2len_get_prev_def)
  qed
qed

lemma k_diag:
  assumes inv: "diag_inv x i j2len best" and np: "chain_b x (x ! i) \<noteq> []"
  shows "j2len_get_prev j2len i + 1 = np_run x i"
proof (cases i)
  case 0
  then show ?thesis using np by (simp add: j2len_get_prev_def)
next
  case (Suc i')
  with inv have "j2len_get_prev j2len i = np_run x i'" unfolding diag_inv_def by simp
  then show ?thesis using Suc np by simp
qed

lemma np_run_popular: "chain_b x (x ! i) = [] \<Longrightarrow> np_run x i = 0"
  by (cases i) simp_all

lemma better_diag:
  "fst best = fst (snd best) \<Longrightarrow> fst (better i i k best) = fst (snd (better i i k best))"
  by (cases best) (simp add: better_def)

lemma better_size: "snd (snd best) \<le> snd (snd (better i j k best)) \<and> k \<le> snd (snd (better i j k best))"
  by (cases best) (simp add: better_def)

lemma diag_row:
  assumes inv: "diag_inv x i j2len best" and i: "i < length x"
    and res: "scan_row j2len 0 (length x) i (chain_b x (x ! i)) (Map.empty, best) = (new', best')"
  shows "diag_inv x (Suc i) new' best'"
proof (cases "chain_b x (x ! i) = []")
  case True
  with res have "new' = Map.empty" "best' = best" by simp_all
  moreover have "np_run x i = 0" by (rule np_run_popular[OF True])
  ultimately show ?thesis
    using inv by (auto simp: diag_inv_def j2len_get_prev_def less_Suc_eq)
next
  case False
  let ?P = "\<lambda>j. x ! j = x ! i"
  let ?k = "\<lambda>j. j2len_get_prev j2len j + 1"
  let ?js1 = "filter ?P [0..<i]"
  let ?js2 = "filter ?P [Suc i..<length x]"
  let ?run = "scan_row j2len 0 (length x) i"
  have js: "chain_b x (x ! i) = ?js1 @ [i] @ ?js2"
    using False chain_b_cases[of x "x ! i"] indices_of_split[OF i] by simp
  have kb: "?k j \<le> np_run x j \<and> ?k j \<le> np_run x i" if "x ! j = x ! i" for j
    by (rule k_bounds[OF inv False that])
  have kd: "?k i = np_run x i" by (rule k_diag[OF inv False])
  have old: "np_run x j \<le> snd (snd best)" if "j < i" for j
    using inv that unfolding diag_inv_def by blast
  have in_range: "\<forall>j \<in> set (?js1 @ [i] @ ?js2). 0 \<le> j \<and> j < length x"
    using i by auto
  have new: "new' = (\<lambda>j. if j \<in> set (?js1 @ [i] @ ?js2) then Some (?k j) else None)"
    using scan_row_fst[OF in_range, of j2len i Map.empty best] res js by simp
  have s1: "snd (?run ?js1 (Map.empty, best)) = best"
  proof (rule scan_row_snd_unchanged, rule ballI)
    fix j assume "j \<in> set ?js1"
    then have "j < i" "x ! j = x ! i" by auto
    with kb[of j] old[of j] show "?k j \<le> snd (snd best)" by linarith
  qed
  obtain m1 where st1: "?run ?js1 (Map.empty, best) = (m1, best)"
    using s1 by (cases "?run ?js1 (Map.empty, best)") auto
  have st2: "?run [i] (m1, best) = (m1(i \<mapsto> ?k i), better i i (?k i) best)"
    using i by (intro scan_row_single) simp_all
  have s3: "snd (?run ?js2 (m1(i \<mapsto> ?k i), better i i (?k i) best)) = better i i (?k i) best"
  proof (rule scan_row_snd_unchanged, rule ballI)
    fix j assume "j \<in> set ?js2"
    then have "x ! j = x ! i" by auto
    with kb[of j] kd better_size[of best i i "?k i"]
    show "?k j \<le> snd (snd (better i i (?k i) best))" by linarith
  qed
  have "?run (?js1 @ ([i] @ ?js2)) (Map.empty, best) = ?run ([i] @ ?js2) (?run ?js1 (Map.empty, best))"
    by (rule scan_row_append) (use i in auto)
  moreover have "?run ([i] @ ?js2) (m1, best) = ?run ?js2 (?run [i] (m1, best))"
    by (rule scan_row_append) (use i in simp)
  ultimately have "?run (?js1 @ [i] @ ?js2) (Map.empty, best)
      = ?run ?js2 (m1(i \<mapsto> ?k i), better i i (?k i) best)"
    by (simp only: st1 st2)
  then have best': "best' = better i i (?k i) best"
    using res js s3 by (metis snd_conv)
  have d: "fst best' = fst (snd best')"
    using inv best' better_diag[of best i "?k i"] unfolding diag_inv_def by simp
  have b: "np_run x j \<le> snd (snd best')" if "j < Suc i" for j
  proof (cases "j = i")
    case True
    then show ?thesis using kd better_size[of best i i "?k i"] best' by simp
  next
    case False
    with that have "j < i" by simp
    from old[OF this] better_size[of best i i "?k i"] best' show ?thesis by simp
  qed
  have a: "v \<le> np_run x j \<and> v \<le> np_run x i" if "new' j = Some v" for j v
  proof -
    from that new have "j \<in> set (?js1 @ [i] @ ?js2)" and v: "v = ?k j"
      by (auto split: if_splits)
    then have "x ! j = x ! i" by auto
    from kb[OF this] v show ?thesis by simp
  qed
  have c: "j2len_get_prev new' (Suc i) = np_run x i"
    using new kd by (simp add: j2len_get_prev_def)
  show ?thesis
    unfolding diag_inv_def using a b c d by auto
qed

lemma diag_rows:
  assumes "diag_inv x i j2len best" and "i \<le> length x"
  shows "fst (scan_rows x (chain_b x) 0 (length x) [i..<length x] (j2len, best))
         = fst (snd (scan_rows x (chain_b x) 0 (length x) [i..<length x] (j2len, best)))"
  using assms
proof (induction "length x - i" arbitrary: i j2len best)
  case 0
  then show ?case by (simp add: diag_inv_def)
next
  case (Suc d)
  then have lt: "i < length x" by simp
  obtain new' best' where s: "scan_row j2len 0 (length x) i (chain_b x (x ! i)) (Map.empty, best) = (new', best')"
    by (cases "scan_row j2len 0 (length x) i (chain_b x (x ! i)) (Map.empty, best)") auto
  have inv': "diag_inv x (Suc i) new' best'" by (rule diag_row[OF Suc.prems(1) lt s])
  have "d = length x - Suc i" using Suc.hyps(2) by simp
  from Suc.hyps(1)[OF this inv'] lt
  have "fst (scan_rows x (chain_b x) 0 (length x) [Suc i..<length x] (new', best'))
        = fst (snd (scan_rows x (chain_b x) 0 (length x) [Suc i..<length x] (new', best')))"
    by simp
  then show ?case using lt s by (simp add: upt_conv_Cons)
qed

lemma extend_left_same:
  "d \<le> length x \<Longrightarrow> extend_left x x 0 0 (d, d, s) = (0, 0, s + d)"
proof (induction d arbitrary: s)
  case 0
  then show ?case by (subst extend_left.simps) simp
next
  case (Suc d)
  then show ?case by (subst extend_left.simps) (simp add: isbjunk_def)
qed

lemma extend_right_same:
  "m \<le> length x \<Longrightarrow> extend_right x x (length x) (length x) (0, 0, m) = (0, 0, length x)"
proof (induction "length x - m" arbitrary: m)
  case 0
  then show ?case by (subst extend_right.simps) simp
next
  case (Suc d)
  then have "d = length x - (m + 1)" "m + 1 \<le> length x" "m < length x" by simp_all
  with Suc.hyps(1)[of "m + 1"] show ?case
    by (subst extend_right.simps) (simp add: isbjunk_def)
qed

lemma find_longest_match_same:
  "find_longest_match x x 0 (length x) 0 (length x) = (0, 0, length x)"
proof -
  let ?best = "scan_rows x (chain_b x) 0 (length x) [0..<length x] (Map.empty, (0, 0, 0))"
  have "diag_inv x 0 Map.empty (0, 0, 0)" by (simp add: diag_inv_def)
  then have diag: "fst ?best = fst (snd ?best)" by (rule diag_rows) simp
  have "best_within 0 0 (0, 0, 0)" by (simp add: best_within_def)
  then have "best_within 0 (length x) ?best"
    by (intro scan_rows_bounds) (simp_all add: row_bounded_def)
  with diag obtain d s where best: "?best = (d, d, s)" and le: "d + s \<le> length x"
    by (cases ?best) (auto simp: best_within_def)
  then show ?thesis
    by (simp add: find_longest_match_def extend_left_junk_id extend_right_junk_id
        extend_left_same extend_right_same)
qed

lemma match_loop_same:
  "match_loop x x [(0, length x, 0, length x)] [] = (if x = [] then [] else [(0, 0, length x)])"
  by (simp add: match_loop.simps find_longest_match_same)

lemma ratio_same: "ratio x x = 1"
  by (simp add: ratio_def get_matching_blocks_def match_loop_same calculate_ratio_def Let_def)

lemma scan_rows_no_positions:
  "\<forall>i \<in> set rows. b2j (a ! i) = [] \<Longrightarrow> scan_rows a b2j blo bhi rows (j2len, best) = best"
  by (induction rows arbitrary: j2len) simp_all

lemma chain_b_absent: "c \<notin> set b \<Longrightarrow> chain_b b c = []"
proof -
  assume "c \<notin> set b"
  then have "indices_of c b = []" by (auto simp: indices_of_def filter_empty_conv)
  then show ?thesis by (simp add: chain_b_def)
qed

lemma find_longest_match_disjoint:
  assumes "set a \<inter> set b = {}"
  shows "find_longest_match a b 0 (length a) 0 (length b) = (0, 0, 0)"
proof -
  have "\<forall>i \<in> set [0..<length a]. chain_b b (a ! i) = []"
  proof
    fix i assume "i \<in> set [0..<length a]"
    then have "a ! i \<in> set a" by simp
    with assms have "a ! i \<notin> set b" by blast
    then show "chain_b b (a ! i) = []" by (rule chain_b_absent)
  qed
  then have "scan_rows a (chain_b b) 0 (length b) [0..<length a] (Map.empty, (0, 0, 0)) = (0, 0, 0)"
    by (rule scan_rows_no_positions)
  moreover have "a ! 0 \<noteq> b ! 0" if "0 < length a" "0 < length b"
    using assms that by (metis disjoint_iff nth_mem)
  then have "extend_right a b (length a) (length b) (0, 0, 0) = (0, 0, 0)"
    by (subst extend_right.simps) auto
  moreover have "extend_left a b 0 0 (0, 0, 0) = (0, 0, 0)"
    by (subst extend_left.simps) simp
  ultimately show ?thesis
    by (simp add: find_longest_match_def extend_left_junk_id extend_right_junk_id)
qed

lemma ratio_disjoint:
  assumes "set a \<inter> set b = {}"
  shows "ratio a b = (if a = [] \<and> b = [] then 1 else 0)"
proof -
  have "match_loop a b [(0, length a, 0, length b)] [] = []"
    by (simp add: match_loop.simps find_longest_match_disjoint[OF assms])
  then show ?thesis
    by (simp add: ratio_def get_matching_blocks_def calculate_ratio_def Let_def)
qed

section \<open>Properties of the answer validator\<close>

text \<open>
  The normalisation as the specification words it: lowercase, delete every character that is
  not an ASCII letter, a digit or a plain space, trim.
\<close>

definition ascii_letter :: "char \<Rightarrow> bool" where
  "ascii_letter c = (c \<in> set ''abcdefghijklmnopqrstuvwxyzABCDEFGHIJKLMNOPQRSTUVWXYZ'')"

definition ascii_digit :: "char \<Rightarrow> bool" where
  "ascii_digit c = (c \<in> set ''0123456789'')"

definition spec_normalize :: "string \<Rightarrow> string" where
  "spec_normalize s =
     strip (filter (\<lambda>c. ascii_letter c \<or> ascii_digit c \<or> c = CHR '' '') (lower s))"

lemma char_eq_code: "(c = d) = ((of_char c :: nat) = of_char d)"
  by simp

lemma alnum_or_space_spec:
  "alnum_or_space c = (ascii_letter c \<or> ascii_digit c \<or> c = CHR '' '')"
proof -
  have "(ascii_letter c \<or> ascii_digit c \<or> c = CHR '' '')
        = (let n = (of_char c :: nat)
           in (97 \<le> n \<and> n \<le> 122) \<or> (65 \<le> n \<and> n \<le> 90) \<or> (48 \<le> n \<and> n \<le> 57) \<or> n = 32)"
    unfolding ascii_letter_def ascii_digit_def Let_def
    apply (simp only: set_simps insert_iff empty_iff char_eq_code[of c])
    apply simp
    apply arith
    done
  then show ?thesis by (simp add: alnum_or_space_def)
qed

lemma clean_text_spec: "clean_text s = spec_normalize s"
proof -
  have "alnum_or_space = (\<lambda>c. ascii_letter c \<or> ascii_digit c \<or> c = CHR '' '')"
    by (rule ext) (rule alnum_or_space_spec)
  then show ?thesis
    by (simp add: clean_text_def spec_normalize_def re_sub_non_alnum_def)
qed

text \<open>
  C1: for every pair of strings the validator, with its threshold of 0.8, declares the user's
  answer correct exactly when the similarity ratio of the two normalised strings is at least
  4/5, the normalisation being the one the specification describes.
\<close>

theorem is_answer_correct_iff_ratio:
  "is_answer_correct user_answer oracle_answer default_threshold
   = (ratio (spec_normalize user_answer) (spec_normalize oracle_answer) \<ge> 4 / 5)"
  by (simp add: is_answer_correct_def default_threshold_def clean_text_spec)

text \<open>
  C7, as stated: the ratio of \<open>a\<close> and \<open>b\<close> equals the ratio of \<open>b\<close> and \<open>a\<close> for every pair
  of strings. It fails: \<open>tide\<close> against \<open>diet\<close> gives 1/4, \<open>diet\<close> against \<open>tide\<close> gives
  1/2.
\<close>

theorem ratio_not_symmetric: "ratio ''tide'' ''diet'' \<noteq> ratio ''diet'' ''tide''"
  by code_simp

text \<open>
  C7, amended: the ratio of \<open>a\<close> and \<open>b\<close> equals the ratio of \<open>b\<close> and \<open>a\<close> whenever the two
  strings are equal or have no character in common, which includes the case where one of
  them is empty.
\<close>

theorem ratio_symmetric_equal_or_disjoint:
  "a = b \<or> set a \<inter> set b = {} \<Longrightarrow> ratio a b = ratio b a"
proof (cases "a = b")
  case True
  then show ?thesis by simp
next
  case False
  assume "a = b \<or> set a \<inter> set b = {}"
  with False have d: "set a \<inter> set b = {}" by simp
  then have "set b \<inter> set a = {}" by blast
  from ratio_disjoint[OF d] ratio_disjoint[OF this] show ?thesis by auto
qed

theorem ratio_symmetric_equal_or_disjoint_witness:
  "set ''paris'' \<inter> set ''london'' = {} \<and> ratio ''paris'' ''london'' = ratio ''london'' ''paris''"
proof -
  have d: "set ''paris'' \<inter> set ''london'' = {}" by simp
  then have "''paris'' = ''london'' \<or> set ''paris'' \<inter> set ''london'' = {}" by (rule disjI2)
  from ratio_symmetric_equal_or_disjoint[OF this] d show ?thesis by (rule_tac conjI)
qed

text \<open>
  C10: checking an answer against itself succeeds for every string, and the ratio of two
  empty strings is 1, which covers a string that normalises to the empty string.
\<close>

theorem is_answer_correct_reflexive:
  "is_answer_correct a a default_threshold \<and> ratio [] [] = 1"
  by (simp add: is_answer_correct_def default_threshold_def ratio_same)

section \<open>Properties of text extraction\<close>

text \<open>
  The two status categories of a failure response: a client error (status 4xx) reports bad
  input, a server error (status 5xx) an internal failure.
\<close>

fun bad_input :: "py_exception \<Rightarrow> bool" where
  "bad_input (HTTPException c d) = (400 \<le> c \<and> c < 500)"
| "bad_input (LibraryError m) = False"

fun internal_failure :: "py_exception \<Rightarrow> bool" where
  "internal_failure (HTTPException c d) = (500 \<le> c \<and> c < 600)"
| "internal_failure (LibraryError m) = False"

lemma strip_all_space:
  assumes "\<forall>c \<in> set s. isspace c"
  shows "strip s = []"
proof -
  have "dropWhile isspace (rev s) = []" using assms by (metis dropWhile_eq_Nil_conv set_rev)
  then show ?thesis by (simp only: strip_def lstrip_def rstrip_def rev.simps dropWhile.simps)
qed

lemma strip_length: "length (strip s) \<le> length s"
proof -
  have "length (dropWhile isspace (rev (dropWhile isspace (rev s)))) \<le> length (rev (dropWhile isspace (rev s)))"
    by (rule length_dropWhile_le)
  also have "\<dots> \<le> length s" using length_dropWhile_le[of isspace "rev s"] by simp
  finally show ?thesis by (simp add: strip_def lstrip_def rstrip_def)
qed

lemma strip_no_outer_space:
  assumes "strip s \<noteq> []"
  shows "\<not> isspace (hd (strip s)) \<and> \<not> isspace (last (strip s))"
proof -
  let ?r = "rev (dropWhile isspace (rev s))"
  have s: "strip s = dropWhile isspace ?r" by (simp add: strip_def lstrip_def rstrip_def)
  with assms have h: "\<not> isspace (hd (strip s))" by (metis hd_dropWhile)
  have ne: "?r \<noteq> []"
  proof
    assume "?r = []"
    then have "dropWhile isspace ?r = []" by (simp only: dropWhile.simps)
    with s assms show False by simp
  qed
  then have "dropWhile isspace (rev s) \<noteq> []" by simp
  then have "\<not> isspace (hd (dropWhile isspace (rev s)))" by (rule hd_dropWhile)
  then have l: "\<not> isspace (last ?r)" using ne by (simp add: last_rev)
  have "last (dropWhile isspace ?r) = last ?r"
    using assms s by (metis append_self_conv2 last_appendR takeWhile_dropWhile_id)
  with h l s show ?thesis by simp
qed

text \<open>
  What a successful extraction returns: at most 5000 characters, and no whitespace at either
  end when the result is not empty.
\<close>

lemma extract_success:
  assumes "extract_text_from_pdf fitz_open pdf_file = Inr t"
  shows "length t \<le> 5000 \<and> (t \<noteq> [] \<longrightarrow> \<not> isspace (hd t) \<and> \<not> isspace (last t))"
proof -
  from assms obtain u where t: "t = strip (take 5000 u)"
    by (auto simp: extract_text_from_pdf_def extract_text_try_def Let_def
        split: sum.splits if_splits)
  have "length t \<le> length (take 5000 u)" unfolding t by (rule strip_length)
  then have "length t \<le> 5000" by simp
  then show ?thesis using strip_no_outer_space[of "take 5000 u"] t by blast
qed

lemma join_blank_pages:
  "join sep (replicate (Suc n) [] @ [x]) = concat (replicate (Suc n) sep) @ x"
proof -
  have "concat (map (\<lambda>y. sep @ y) (replicate n [] @ [x])) = concat (replicate n sep) @ sep @ x"
    by (induction n) simp_all
  moreover have "concat (replicate n sep) @ sep = concat (replicate (Suc n) sep)"
    by (induction n) simp_all
  ultimately show ?thesis by (simp add: join_def)
qed

text \<open>
  A document whose text is nothing but whitespace is refused, with status 500: the exception
  with status 400 is raised inside the \<open>try\<close> block.
\<close>

lemma extract_no_text:
  assumes "endswith (filename pdf_file) ''.pdf''" and "fitz_open (contents pdf_file) = Inr doc"
    and "doc \<noteq> []" and "strip (join [CHR 0x0A] doc) = []"
  shows "extract_text_from_pdf fitz_open pdf_file
         = Inl (HTTPException 500 (Prefixed ''Error processing PDF: ''
             (HTTPException 400 (Text ''No extractable text found in PDF.''))))"
  using assms by (simp add: extract_text_from_pdf_def extract_text_try_def)

text \<open>
  C3: extraction is claimed never to return the empty string as a success. The emptiness
  check reads the whole text, and the result is cut to 5000 characters afterwards: a document
  of 5000 pages without text followed by a page with the text \<open>a\<close> passes the check, and
  the empty string is returned.
\<close>

theorem extract_returns_empty_success:
  "extract_text_from_pdf (\<lambda>bytes. Inr (replicate 5000 [] @ [''a'']))
     \<lparr>filename = ''a.pdf'', contents = []\<rparr> = Inr []"
proof -
  let ?nl = "replicate 5000 (CHR 0x0A)"
  have "concat (replicate n [c]) = replicate n c" for n and c :: char
    by (induction n) simp_all
  then have t: "join [CHR 0x0A] (replicate (Suc 4999) [] @ [''a'']) = ?nl @ ''a''"
    by (simp only: join_blank_pages) simp
  have "strip (?nl @ ''a'') \<noteq> []" by (simp add: strip_def lstrip_def rstrip_def isspace_def)
  moreover have "take 5000 (?nl @ ''a'') = ?nl" by simp
  moreover have "strip ?nl = []"
    by (rule strip_all_space) (simp add: isspace_def)
  moreover have "replicate 5000 ([]::string) @ [''a''] \<noteq> []" by simp
  ultimately show ?thesis using t
    by (simp add: extract_text_from_pdf_def extract_text_try_def endswith_def)
qed

text \<open>
  C4: an upload named \<open>notes.txt\<close> is rejected whatever the parser would do with its bytes,
  so before any parsing; but the exception with status 400 is raised inside the \<open>try\<close>
  block, caught by \<open>except Exception\<close> and raised again with status 500, which is not in
  the bad-input category.
\<close>

theorem extract_non_pdf_name_status_500:
  "extract_text_from_pdf fitz_open \<lparr>filename = ''notes.txt'', contents = bytes\<rparr>
   = Inl (HTTPException 500 (Prefixed ''Error processing PDF: ''
            (HTTPException 400 (Text ''Uploaded file is not a valid PDF.''))))
   \<and> \<not> bad_input (HTTPException 500 (Prefixed ''Error processing PDF: ''
            (HTTPException 400 (Text ''Uploaded file is not a valid PDF.''))))"
  by (simp add: extract_text_from_pdf_def extract_text_try_def endswith_def)

section \<open>Properties of question generation\<close>

definition ends_with_question_mark :: "question_record \<Rightarrow> bool" where
  "ends_with_question_mark r =
     (case q_question r of [q] \<Rightarrow> q \<noteq> [] \<and> last q = CHR ''?'' \<and> endswith q ''?'' | _ \<Rightarrow> False)"

lemma endswith_last:
  assumes "endswith t [c]"
  shows "t \<noteq> [] \<and> last t = c"
proof -
  from assms have len: "1 \<le> length t" and d: "drop (length t - 1) t = [c]"
    by (simp_all add: endswith_def)
  from len have ne: "t \<noteq> []" by auto
  then have "last (drop (length t - 1) t) = last t" by (simp add: last_drop)
  with d ne show ?thesis by simp
qed

lemma clean_generated_text_accepted:
  assumes "clean_generated_text q \<noteq> []"
  shows "last (clean_generated_text q) = CHR ''?'' \<and> endswith (clean_generated_text q) ''?''"
proof -
  from assms have e: "endswith (strip q) ''?''" and c: "clean_generated_text q = strip q"
    by (auto simp: clean_generated_text_def Let_def split: if_splits)
  from endswith_last[OF e] e c show ?thesis by simp
qed

lemma accept_generated_questions:
  assumes "\<forall>r \<in> set questions. ends_with_question_mark r"
    and "accept_generated gen rnd s generated questions = (questions', s')"
  shows "\<forall>r \<in> set questions'. ends_with_question_mark r"
  using assms
proof (induction generated arbitrary: s questions)
  case Nil
  then show ?case by simp
next
  case (Cons q generated)
  show ?case
  proof (cases "clean_generated_text q = []")
    case True
    with Cons.prems(2) have "accept_generated gen rnd s generated questions = (questions', s')"
      by simp
    from Cons.IH[OF Cons.prems(1) this] show ?thesis .
  next
    case False
    obtain answer_type s1 where t: "generate_answer_type rnd s = (answer_type, s1)"
      by (cases "generate_answer_type rnd s") auto
    obtain possible_answers s2
      where p: "generate_possible_answers gen s1 (clean_generated_text q) answer_type = (possible_answers, s2)"
      by (cases "generate_possible_answers gen s1 (clean_generated_text q) answer_type") auto
    let ?r = "\<lparr>q_question = [clean_generated_text q], q_type = [answer_type],
               q_answers = possible_answers\<rparr>"
    have "ends_with_question_mark ?r"
      using clean_generated_text_accepted[OF False] False by (simp add: ends_with_question_mark_def)
    with Cons.prems(1) have all: "\<forall>r \<in> set (questions @ [?r]). ends_with_question_mark r" by simp
    have "accept_generated gen rnd s2 generated (questions @ [?r]) = (questions', s')"
      using Cons.prems(2) False t p by (simp add: Let_def)
    from Cons.IH[OF all this] show ?thesis .
  qed
qed

lemma generate_for_chunks_questions:
  assumes "\<forall>r \<in> set questions. ends_with_question_mark r"
    and "generate_for_chunks gen rnd difficulty s chunks questions = (Inr questions', s')"
  shows "\<forall>r \<in> set questions'. ends_with_question_mark r"
  using assms
proof (induction chunks arbitrary: s questions)
  case Nil
  then show ?case by simp
next
  case (Cons chunk chunks)
  let ?prompt = "question_prompt difficulty chunk"
  from Cons.prems(2) obtain generated s1 where g: "gen s ?prompt 128 2 = (Inr generated, s1)"
    by (cases "gen s ?prompt 128 2") (auto simp: Let_def split: sum.splits)
  obtain qs s2 where a: "accept_generated gen rnd s1 generated questions = (qs, s2)"
    by (cases "accept_generated gen rnd s1 generated questions") auto
  have all: "\<forall>r \<in> set qs. ends_with_question_mark r"
    by (rule accept_generated_questions[OF Cons.prems(1) a])
  have "generate_for_chunks gen rnd difficulty s2 chunks qs = (Inr questions', s')"
    using Cons.prems(2) g a by (simp add: Let_def)
  from Cons.IH[OF all this] show ?case .
qed

text \<open>
  C5: in every successful response of \<open>generate_questions\<close>, each record holds exactly one
  question string, and that string is not empty and ends with the character \<open>?\<close>.
\<close>

theorem generated_questions_end_with_question_mark:
  assumes "generate_questions fitz_open gen rnd s file difficulty = (Inr questions, s')"
    and "r \<in> set questions"
  shows "\<exists>q. q_question r = [q] \<and> q \<noteq> [] \<and> last q = CHR ''?''"
proof -
  obtain t where e: "extract_text_from_pdf fitz_open file = Inr t"
    using assms(1) by (cases "extract_text_from_pdf fitz_open file") (simp_all add: generate_questions_def)
  have ne: "t \<noteq> []"
    using assms(1) e by (auto simp: generate_questions_def)
  obtain res s2 where g: "generate_for_chunks gen rnd difficulty s (chunk_text t) [] = (res, s2)"
    by (cases "generate_for_chunks gen rnd difficulty s (chunk_text t) []") auto
  obtain qs where res: "res = Inr qs"
    using assms(1) e ne g by (cases res) (simp_all add: generate_questions_def)
  have q: "questions = take 10 qs" and "s2 = s'"
    using assms(1) e ne g res by (simp_all add: generate_questions_def split: if_splits)
  with g res have "generate_for_chunks gen rnd difficulty s (chunk_text t) [] = (Inr qs, s')"
    by simp
  then have "\<forall>r \<in> set qs. ends_with_question_mark r"
    by (rule generate_for_chunks_questions[of "[]", rotated]) simp
  moreover have "r \<in> set qs" using assms(2) q by (auto dest: in_set_takeD)
  ultimately have "ends_with_question_mark r" by blast
  then show ?thesis
    by (auto simp: ends_with_question_mark_def split: list.splits)
qed

text \<open>Concrete collaborators on which the theorems are instantiated.\<close>

definition sample_parser :: parser where
  "sample_parser bytes = Inr [''Paris is the capital of France.'']"

definition sample_file :: upload_file where
  "sample_file = \<lparr>filename = ''doc.pdf'', contents = []\<rparr>"

definition sample_generator :: "nat generator" where
  "sample_generator s prompt max_length n =
     (if n = 2 then (Inr [''What is the capital of France? '', ''Paris''], Suc s)
      else (Inr [''Paris''], Suc s))"

definition statement_generator :: "nat generator" where
  "statement_generator s prompt max_length n = (Inr [''Paris'', ''France is a country.''], Suc s)"



definition fixed_choice :: "nat \<Rightarrow> nat randbelow" where
  "fixed_choice r s n = (r, s)"

definition sample_qa :: "nat qa_pipeline" where
  "sample_qa s question context = (Inr (Some ''Paris''), Suc s)"

theorem generated_questions_end_with_question_mark_witness:
  "generate_questions sample_parser sample_generator (fixed_choice 1) 0 sample_file ''medium''
     = (Inr [\<lparr>q_question = [''What is the capital of France?''],
              q_type = [[CHR ''S'', CHR 0xED, CHR ''/'', CHR ''N'', CHR ''o'']],
              q_answers = [[CHR ''S'', CHR 0xED], ''No'']\<rparr>], 1)
   \<and> (\<exists>q. q_question \<lparr>q_question = [''What is the capital of France?''],
              q_type = [[CHR ''S'', CHR 0xED, CHR ''/'', CHR ''N'', CHR ''o'']],
              q_answers = [[CHR ''S'', CHR 0xED], ''No'']\<rparr> = [q] \<and> q \<noteq> [] \<and> last q = CHR ''?'')"
proof -
  let ?r = "\<lparr>q_question = [''What is the capital of France?''],
              q_type = [[CHR ''S'', CHR 0xED, CHR ''/'', CHR ''N'', CHR ''o'']],
              q_answers = [[CHR ''S'', CHR 0xED], ''No'']\<rparr>"
  have run: "generate_questions sample_parser sample_generator (fixed_choice 1) 0 sample_file ''medium''
     = (Inr [?r], 1)"
    by code_simp
  have "?r \<in> set [?r]" by simp
  from generated_questions_end_with_question_mark[OF run this] run show ?thesis by (rule_tac conjI)
qed





lemma yes_no_fixed:
  "fst (generate_possible_answers gen s question [CHR ''S'', CHR 0xED, CHR ''/'', CHR ''N'', CHR ''o''])
   = [[CHR ''S'', CHR 0xED], ''No'']"
  by (simp add: generate_possible_answers_def)









text \<open>
  C8, as stated: when no question is accepted, the failure is surfaced in the bad-input
  category. It fails: the status raised is 500.
\<close>

theorem no_questions_status_500:
  "fst (generate_questions sample_parser statement_generator (fixed_choice 0) 0 sample_file ''medium'')
     = Inl (HTTPException 500 (Text ''Failed to generate valid questions.''))
   \<and> \<not> bad_input (HTTPException 500 (Text ''Failed to generate valid questions.''))"
  by code_simp

text \<open>
  C8, amended: whenever extraction gives a non-empty text and generation over all its chunks
  ends without an exception and with no accepted question, \<open>generate_questions\<close> fails
  with the message of the no-questions error and status 500, the internal-failure category.
\<close>

theorem no_questions_generated:
  assumes "extract_text_from_pdf fitz_open file = Inr t" and "t \<noteq> []"
    and "generate_for_chunks gen rnd difficulty s (chunk_text t) [] = (Inr [], s')"
  shows "generate_questions fitz_open gen rnd s file difficulty
           = (Inl (HTTPException 500 (Text ''Failed to generate valid questions.'')), s')
         \<and> internal_failure (HTTPException 500 (Text ''Failed to generate valid questions.''))"
  using assms by (simp add: generate_questions_def)

theorem no_questions_generated_witness:
  "extract_text_from_pdf sample_parser sample_file = Inr ''Paris is the capital of France.''
   \<and> generate_for_chunks statement_generator (fixed_choice 0) ''medium'' 0
        (chunk_text ''Paris is the capital of France.'') [] = (Inr [], 1)
   \<and> generate_questions sample_parser statement_generator (fixed_choice 0) 0 sample_file ''medium''
        = (Inl (HTTPException 500 (Text ''Failed to generate valid questions.'')), 1)"
proof -
  have e: "extract_text_from_pdf sample_parser sample_file = Inr ''Paris is the capital of France.''"
    by code_simp
  have ne: "''Paris is the capital of France.'' \<noteq> []" by simp
  have g: "generate_for_chunks statement_generator (fixed_choice 0) ''medium'' 0
        (chunk_text ''Paris is the capital of France.'') [] = (Inr [], 1)"
    by code_simp
  from no_questions_generated[OF e ne g] e g show ?thesis by blast
qed

section \<open>Properties of the validate operation\<close>

text \<open>
  C9: once the context text is extracted, \<open>validate_answers\<close> fails with the invalid-input
  error, a bad-input status, exactly when the question, the user's answer or the context is
  empty; in that case the state of the question-answering model is returned unchanged, for
  every model: the model is not called.
\<close>

theorem validate_rejects_empty_input:
  assumes "extract_text_from_pdf fitz_open file = Inr context"
  shows "(fst (validate_answers fitz_open qa s file question user_answer)
            = Inl (HTTPException 400
                (Text ''Invalid input: question, answer, and PDF file are required.'')))
         = (question = [] \<or> user_answer = [] \<or> context = [])
       \<and> (question = [] \<or> user_answer = [] \<or> context = [] \<longrightarrow>
            snd (validate_answers fitz_open qa s file question user_answer) = s)
       \<and> bad_input (HTTPException 400
                (Text ''Invalid input: question, answer, and PDF file are required.''))"
proof (cases "question = [] \<or> user_answer = [] \<or> context = []")
  case True
  then show ?thesis using assms by (simp add: validate_answers_def)
next
  case False
  obtain res s1 where q: "qa s question context = (res, s1)" by (cases "qa s question context") auto
  show ?thesis
  proof (cases res)
    case (Inl e)
    with False q assms show ?thesis by (simp add: validate_answers_def)
  next
    case (Inr response)
    with False q assms show ?thesis by (simp add: validate_answers_def Let_def)
  qed
qed

theorem validate_rejects_empty_input_witness:
  "extract_text_from_pdf sample_parser sample_file = Inr ''Paris is the capital of France.''
   \<and> validate_answers sample_parser sample_qa 0 sample_file [] ''Paris''
        = (Inl (HTTPException 400
             (Text ''Invalid input: question, answer, and PDF file are required.'')), 0)"
proof -
  have e: "extract_text_from_pdf sample_parser sample_file = Inr ''Paris is the capital of France.''"
    by code_simp
  from validate_rejects_empty_input[OF e, of sample_qa 0 "[]" "''Paris''"]
  have "fst (validate_answers sample_parser sample_qa 0 sample_file [] ''Paris'')
          = Inl (HTTPException 400
                (Text ''Invalid input: question, answer, and PDF file are required.''))"
    and "snd (validate_answers sample_parser sample_qa 0 sample_file [] ''Paris'') = 0"
    by simp_all
  then have "validate_answers sample_parser sample_qa 0 sample_file [] ''Paris''
        = (Inl (HTTPException 400
             (Text ''Invalid input: question, answer, and PDF file are required.'')), 0)"
    by (simp add: prod_eq_iff)
  with e show ?thesis by (rule_tac conjI)
qed

end
